theory Spec2Isabelle
  imports Main "HOL-Library.While_Combinator"
begin

section \<open>Time values and the calendar of Date objects\<close>

text \<open>
  A JavaScript \<open>Date\<close> holds a time value: the number of milliseconds since
  1970-01-01T00:00:00Z. It is modelled as an \<open>int\<close>. The calendar functions below are
  the ones ECMA-262 (section "Date Objects", 21.4.1) defines and that \<open>getDate\<close>,
  \<open>getDay\<close>, \<open>setDate\<close> and the \<open>getUTC...\<close> accessors are specified by. Two things
  are outside the model: the Invalid Date (time value NaN; the storage layer only holds
  valid dates) and the range limit of 8.64e15 ms.
\<close>

definition msPerDay :: int where
  "msPerDay = 86400000"

definition Day :: "int \<Rightarrow> int" where
  "Day t = t div msPerDay"

definition TimeWithinDay :: "int \<Rightarrow> int" where
  "TimeWithinDay t = t mod msPerDay"

definition DaysInYear :: "int \<Rightarrow> int" where
  "DaysInYear y =
     (if y mod 4 \<noteq> 0 then 365
      else if y mod 100 \<noteq> 0 then 366
      else if y mod 400 \<noteq> 0 then 365
      else 366)"

definition DayFromYear :: "int \<Rightarrow> int" where
  "DayFromYear y =
     365 * (y - 1970) + (y - 1969) div 4 - (y - 1901) div 100 + (y - 1601) div 400"

text \<open>
  ECMA-262 defines \<open>YearFromTime(t)\<close> as the largest year \<open>y\<close> with
  \<open>DayFromYear(y) \<le> Day(t)\<close>. It is computed here by a search from an estimate: down
  while the year starts after the day, then up while the next year starts on or before it.
\<close>

function year_down :: "int \<Rightarrow> int \<Rightarrow> int" where
  "year_down d y = (if d < DayFromYear y then year_down d (y - 1) else y)"
  by pat_completeness auto

function year_up :: "int \<Rightarrow> int \<Rightarrow> int" where
  "year_up d y = (if DayFromYear (y + 1) \<le> d then year_up d (y + 1) else y)"
  by pat_completeness auto

definition YearFromDay :: "int \<Rightarrow> int" where
  "YearFromDay d = year_up d (year_down d (1970 + d div 365))"

definition YearFromTime :: "int \<Rightarrow> int" where
  "YearFromTime t = YearFromDay (Day t)"

definition InLeapYear :: "int \<Rightarrow> int" where
  "InLeapYear t = (if DaysInYear (YearFromTime t) = 366 then 1 else 0)"

definition DayWithinYear :: "int \<Rightarrow> int" where
  "DayWithinYear t = Day t - DayFromYear (YearFromTime t)"

definition MonthFromTime :: "int \<Rightarrow> int" where
  "MonthFromTime t =
     (let d = DayWithinYear t; leap = InLeapYear t in
      if d < 31 then 0
      else if d < 59 + leap then 1
      else if d < 90 + leap then 2
      else if d < 120 + leap then 3
      else if d < 151 + leap then 4
      else if d < 181 + leap then 5
      else if d < 212 + leap then 6
      else if d < 243 + leap then 7
      else if d < 273 + leap then 8
      else if d < 304 + leap then 9
      else if d < 334 + leap then 10
      else 11)"

definition DateFromTime :: "int \<Rightarrow> int" where
  "DateFromTime t =
     (let d = DayWithinYear t; leap = InLeapYear t; m = MonthFromTime t in
      if m = 0 then d + 1
      else if m = 1 then d - 30
      else if m = 2 then d - 58 - leap
      else if m = 3 then d - 89 - leap
      else if m = 4 then d - 119 - leap
      else if m = 5 then d - 150 - leap
      else if m = 6 then d - 180 - leap
      else if m = 7 then d - 211 - leap
      else if m = 8 then d - 242 - leap
      else if m = 9 then d - 272 - leap
      else if m = 10 then d - 303 - leap
      else d - 333 - leap)"

definition WeekDay :: "int \<Rightarrow> int" where
  "WeekDay t = (Day t + 4) mod 7"

definition HourFromTime :: "int \<Rightarrow> int" where
  "HourFromTime t = (t div 3600000) mod 24"

definition MinFromTime :: "int \<Rightarrow> int" where
  "MinFromTime t = (t div 60000) mod 60"

definition SecFromTime :: "int \<Rightarrow> int" where
  "SecFromTime t = (t div 1000) mod 60"

text \<open>The day within the year on which month \<open>m\<close> (0 to 11) starts; 12 gives the year's end.\<close>

definition month_start :: "int \<Rightarrow> int \<Rightarrow> int" where
  "month_start m leap =
     (if m = 0 then 0
      else if m = 1 then 31
      else if m = 2 then 59 + leap
      else if m = 3 then 90 + leap
      else if m = 4 then 120 + leap
      else if m = 5 then 151 + leap
      else if m = 6 then 181 + leap
      else if m = 7 then 212 + leap
      else if m = 8 then 243 + leap
      else if m = 9 then 273 + leap
      else if m = 10 then 304 + leap
      else if m = 11 then 334 + leap
      else 365 + leap)"

text \<open>
  \<open>MakeDay(year, month, date)\<close>: the day number of the first of the month (the month
  taken modulo 12, its overflow carried into the year) plus \<open>date - 1\<close>, so that a date
  past the month's end runs into the following month. \<open>MakeDate\<close> puts a day number and
  a time within the day together.
\<close>

definition MakeDay :: "int \<Rightarrow> int \<Rightarrow> int \<Rightarrow> int" where
  "MakeDay year month date =
     (let ym = year + month div 12; mn = month mod 12 in
      DayFromYear ym + month_start mn (if DaysInYear ym = 366 then 1 else 0) + date - 1)"

definition MakeDate :: "int \<Rightarrow> int \<Rightarrow> int" where
  "MakeDate day time = day * msPerDay + time"

section \<open>The host: time zone and number conversion\<close>

text \<open>
  What the program takes from the host it runs on is a parameter of the model, a record
  of three functions. \<open>LocalTZA_utc h t\<close> is the offset of local time from UTC, in
  milliseconds, in force at the time value \<open>t\<close> (ECMA-262's \<open>LocalTZA(t, true)\<close>);
  it changes with \<open>t\<close> where the zone has daylight saving. \<open>LocalTZA_local h t\<close> is the
  offset by which a local time \<open>t\<close> is read (\<open>LocalTZA(t, false)\<close>): for a local time
  that a transition skips or repeats, the offset in force before the transition.
  \<open>Number h s\<close> is the conversion \<open>Number(s)\<close> of a string: \<open>Some n\<close> when the result
  is the integer \<open>n\<close> (\<open>-0\<close> counted as 0), \<open>None\<close> for every other result (NaN, a
  fraction, an infinity); \<open>includes\<close> compares it with a weekday index, an integer.
\<close>

record host =
  LocalTZA_utc :: "int \<Rightarrow> int"
  LocalTZA_local :: "int \<Rightarrow> int"
  Number :: "string \<Rightarrow> int option"

definition LocalTime :: "host \<Rightarrow> int \<Rightarrow> int" where
  "LocalTime h t = t + LocalTZA_utc h t"

definition UTC :: "host \<Rightarrow> int \<Rightarrow> int" where
  "UTC h t = t - LocalTZA_local h t"

definition getDate :: "host \<Rightarrow> int \<Rightarrow> int" where
  "getDate h t = DateFromTime (LocalTime h t)"

definition getDay :: "host \<Rightarrow> int \<Rightarrow> int" where
  "getDay h t = WeekDay (LocalTime h t)"

definition getMonth :: "host \<Rightarrow> int \<Rightarrow> int" where
  "getMonth h t = MonthFromTime (LocalTime h t)"

definition getFullYear :: "host \<Rightarrow> int \<Rightarrow> int" where
  "getFullYear h t = YearFromTime (LocalTime h t)"

text \<open>
  \<open>setDate(date)\<close>: the day of the month of the local time is replaced, the local time
  of day kept, and the new local time read back as a time value.
\<close>

definition setDate :: "host \<Rightarrow> int \<Rightarrow> int \<Rightarrow> int" where
  "setDate h t date =
     (let lt = LocalTime h t in
      UTC h (MakeDate (MakeDay (YearFromTime lt) (MonthFromTime lt) date) (TimeWithinDay lt)))"

text \<open>The number of days of month \<open>m\<close> (0 to 11) of year \<open>y\<close>, and the calendar day
  (year, month, day of month) of a time value in local time.\<close>

definition DaysInMonth :: "int \<Rightarrow> int \<Rightarrow> int" where
  "DaysInMonth y m =
     (if m = 1 then (if DaysInYear y = 366 then 29 else 28)
      else if m = 3 \<or> m = 5 \<or> m = 8 \<or> m = 10 then 30
      else 31)"

definition calendarDay :: "host \<Rightarrow> int \<Rightarrow> int \<times> int \<times> int" where
  "calendarDay h t = (getFullYear h t, getMonth h t, getDate h t)"

definition localDay :: "host \<Rightarrow> int \<Rightarrow> int" where
  "localDay h t = Day (LocalTime h t)"

text \<open>
  Two properties of a time zone, which the zones of the time zone database have.
  \<open>zone_ok\<close>: a local time read as a time value and shown again as local time is never
  earlier than it was (it is the same, or later by the length of the gap when a
  transition skips it), and local time never falls back by a whole day or more.
  \<open>zone_keeps_day\<close>: a local time read and shown again is on the same calendar day, that
  is, no skipped local time is moved past midnight.
\<close>

definition zone_ok :: "host \<Rightarrow> bool" where
  "zone_ok h =
     ((\<forall>x. x \<le> LocalTime h (UTC h x))
      \<and> (\<forall>a b. a \<le> b \<longrightarrow> LocalTime h a < LocalTime h b + msPerDay))"

definition zone_keeps_day :: "host \<Rightarrow> bool" where
  "zone_keeps_day h = (\<forall>x. Day (LocalTime h (UTC h x)) = Day x)"

section \<open>Strings\<close>

text \<open>
  Strings are lists of \<open>char\<close>; the escaping and splitting below work on one code unit at
  a time, so nothing depends on the width of a code unit. \<open>split_on\<close> is
  \<open>String.prototype.split\<close> with a one-character separator: it always returns at least
  one piece. \<open>join\<close> is \<open>Array.prototype.join\<close>.
\<close>

fun split_on :: "char \<Rightarrow> string \<Rightarrow> string list" where
  "split_on c [] = [[]]"
| "split_on c (x # xs) =
     (if x = c then [] # split_on c xs
      else (case split_on c xs of [] \<Rightarrow> [[x]] | w # ws \<Rightarrow> (x # w) # ws))"

fun join :: "string \<Rightarrow> string list \<Rightarrow> string" where
  "join sep [] = []"
| "join sep [x] = x"
| "join sep (x # y # zs) = x @ sep @ join sep (y # zs)"

definition isWhiteSpace :: "char \<Rightarrow> bool" where
  "isWhiteSpace c =
     (c = CHR 0x09 \<or> c = CHR 0x0A \<or> c = CHR 0x0B \<or> c = CHR 0x0C \<or> c = CHR 0x0D
      \<or> c = CHR 0x20 \<or> c = CHR 0xA0)"

definition digit_value :: "nat \<Rightarrow> char \<Rightarrow> int option" where
  "digit_value radix c =
     (let n = (of_char c :: nat);
          v = (if 48 \<le> n \<and> n \<le> 57 then Some (n - 48)
               else if 97 \<le> n \<and> n \<le> 102 then Some (n - 87)
               else if 65 \<le> n \<and> n \<le> 70 then Some (n - 55)
               else None)
      in case v of None \<Rightarrow> None | Some k \<Rightarrow> if k < radix then Some (int k) else None)"

fun digits_value :: "nat \<Rightarrow> int \<Rightarrow> string \<Rightarrow> int option" where
  "digits_value radix acc [] = Some acc"
| "digits_value radix acc (c # cs) =
     (case digit_value radix c of
        None \<Rightarrow> None
      | Some v \<Rightarrow> digits_value radix (int radix * acc + v) cs)"

text \<open>
  \<open>parseInt(s)\<close> with no radix: leading white space and a sign are skipped, a prefix
  \<open>0x\<close> or \<open>0X\<close> selects radix 16, and the longest run of digits is read; with no digit
  the result is NaN (\<open>None\<close>).
\<close>

definition parseInt :: "string \<Rightarrow> int option" where
  "parseInt s =
     (let u = dropWhile isWhiteSpace s;
          neg = (case u of [] \<Rightarrow> False | c # _ \<Rightarrow> c = CHR ''-'');
          v = (case u of [] \<Rightarrow> [] | c # cs \<Rightarrow> if c = CHR ''-'' \<or> c = CHR ''+'' then cs else u);
          hex = (take 2 v = ''0x'' \<or> take 2 v = ''0X'');
          radix = (if hex then 16 else 10);
          w = (if hex then drop 2 v else v);
          ds = takeWhile (\<lambda>c. digit_value radix c \<noteq> None) w
      in if ds = [] then None
         else map_option (\<lambda>n. if neg then - n else n) (digits_value radix 0 ds))"

fun string_of_nat :: "nat \<Rightarrow> string" where
  "string_of_nat n =
     (if n < 10 then [char_of (48 + n)]
      else string_of_nat (n div 10) @ [char_of (48 + n mod 10)])"

definition string_of_int :: "int \<Rightarrow> string" where
  "string_of_int i = (if i < 0 then CHR ''-'' # string_of_nat (nat (- i)) else string_of_nat (nat i))"

definition padStart2 :: "string \<Rightarrow> string" where
  "padStart2 s = replicate (2 - length s) (CHR ''0'') @ s"

section \<open>Event definitions and occurrences\<close>

text \<open>
  The stored record (the Prisma model \<open>Event\<close>): \<open>description\<close>, \<open>frequency\<close> and
  \<open>daysOfWeek\<close> are nullable, the dates are time values. An occurrence is the object
  \<open>{ ...event, displayDate }\<close>: every field of the event and one more.
\<close>

record event =
  id_event :: int
  title :: string
  description :: "string option"
  startDate :: int
  endDate :: int
  isRecurring :: bool
  frequency :: "string option"
  daysOfWeek :: "string option"
  createdAt :: int
  updatedAt :: int

record occurrence = event +
  displayDate :: int

definition occurrence_of :: "event \<Rightarrow> int \<Rightarrow> occurrence" where
  "occurrence_of e d = event.extend e (occurrence.fields d)"

section \<open>The recurrence expander\<close>

text \<open>
  \<open>parse_daysOfWeek\<close> is step 3 of \<open>generateRecurringEvents\<close>: a null or empty string is
  falsy and gives the empty array. \<open>shouldAdd\<close> is the frequency test of the loop body and
  \<open>loop_body\<close> one iteration (steps 4 to 6) on the loop's two variables. The
  \<open>while (currentDate <= monthEnd)\<close> loop is \<open>while_option\<close>, whose value is \<open>None\<close>
  when the loop never ends; so is the value of \<open>generateRecurringEvents\<close> then.
\<close>

definition parse_daysOfWeek :: "host \<Rightarrow> string option \<Rightarrow> int option list" where
  "parse_daysOfWeek h s =
     (case s of
        None \<Rightarrow> []
      | Some str \<Rightarrow> if str = [] then [] else map (Number h) (split_on (CHR '','') str))"

record loop_state =
  currentDate :: int
  occurrences :: "occurrence list"

definition shouldAdd :: "host \<Rightarrow> event \<Rightarrow> int option list \<Rightarrow> int \<Rightarrow> bool" where
  "shouldAdd h e dow cur =
     (if frequency e = Some ''daily'' then True
      else if frequency e = Some ''weekly'' then Some (getDay h cur) \<in> set dow
      else if frequency e = Some ''monthly'' then getDate h cur = getDate h (startDate e)
      else False)"

definition loop_body :: "host \<Rightarrow> event \<Rightarrow> int option list \<Rightarrow> loop_state \<Rightarrow> loop_state" where
  "loop_body h e dow st =
     (let cur = currentDate st;
          occs = (if shouldAdd h e dow cur \<and> startDate e \<le> cur
                  then occurrences st @ [occurrence_of e cur]
                  else occurrences st)
      in \<lparr>currentDate = setDate h cur (getDate h cur + 1), occurrences = occs\<rparr>)"

definition generateRecurringEvents ::
  "host \<Rightarrow> event \<Rightarrow> int \<Rightarrow> int \<Rightarrow> occurrence list option" where
  "generateRecurringEvents h e monthStart monthEnd =
     (if \<not> isRecurring e then
        (let eventDate = startDate e in
         if monthStart \<le> eventDate \<and> eventDate \<le> monthEnd
         then Some [occurrence_of e eventDate]
         else Some [])
      else
        (let dow = parse_daysOfWeek h (daysOfWeek e) in
         map_option occurrences
           (while_option (\<lambda>st. currentDate st \<le> monthEnd) (loop_body h e dow)
              \<lparr>currentDate = max (startDate e) monthStart, occurrences = []\<rparr>)))"

text \<open>
  For the statements about the loop. \<open>next_day\<close> is the step
  \<open>currentDate.setDate(currentDate.getDate() + 1)\<close>, and \<open>visited h start n\<close> lists the
  first \<open>n\<close> time values the loop goes through from \<open>start\<close>. \<open>emitted\<close> is the test
  under which an occurrence is pushed. \<open>listed_day h e d\<close> says that the weekday index
  \<open>d\<close> is in the definition's \<open>daysOfWeek\<close>: the stored string is there, is not empty,
  and one of its comma-separated pieces converts to \<open>d\<close>.
\<close>

definition next_day :: "host \<Rightarrow> int \<Rightarrow> int" where
  "next_day h t = setDate h t (getDate h t + 1)"

definition visited :: "host \<Rightarrow> int \<Rightarrow> nat \<Rightarrow> int list" where
  "visited h start n = map (\<lambda>k. (next_day h ^^ k) start) [0 ..< n]"

definition emitted :: "host \<Rightarrow> event \<Rightarrow> int \<Rightarrow> bool" where
  "emitted h e t = (shouldAdd h e (parse_daysOfWeek h (daysOfWeek e)) t \<and> startDate e \<le> t)"


section \<open>The calendar export\<close>

definition formatICSDate :: "int \<Rightarrow> string" where
  "formatICSDate d =
     (let year = string_of_int (YearFromTime d);
          month = padStart2 (string_of_int (MonthFromTime d + 1));
          day = padStart2 (string_of_int (DateFromTime d));
          hours = padStart2 (string_of_int (HourFromTime d));
          minutes = padStart2 (string_of_int (MinFromTime d));
          seconds = padStart2 (string_of_int (SecFromTime d))
      in year @ month @ day @ ''T'' @ hours @ minutes @ seconds @ ''Z'')"

definition dayMap :: "string list" where
  "dayMap = [''SU'', ''MO'', ''TU'', ''WE'', ''TH'', ''FR'', ''SA'']"

text \<open>\<open>dayMap[parseInt(d)]\<close> as \<open>join\<close> prints it: an index outside the array, or NaN,
  reads \<open>undefined\<close>, which \<open>join\<close> prints as the empty string.\<close>

definition dayCode :: "string \<Rightarrow> string" where
  "dayCode d =
     (case parseInt d of
        None \<Rightarrow> []
      | Some i \<Rightarrow> if 0 \<le> i \<and> i < 7 then dayMap ! nat i else [])"

definition rrule :: "event \<Rightarrow> string" where
  "rrule e =
     (if isRecurring e then
        (if frequency e = Some ''daily'' then ''RRULE:FREQ=DAILY''
         else if frequency e = Some ''weekly'' \<and> daysOfWeek e \<noteq> None \<and> daysOfWeek e \<noteq> Some []
           then ''RRULE:FREQ=WEEKLY;BYDAY=''
                  @ join '','' (map dayCode (split_on (CHR '','') (case daysOfWeek e of Some s \<Rightarrow> s | None \<Rightarrow> [])))
         else if frequency e = Some ''monthly'' then ''RRULE:FREQ=MONTHLY''
         else [])
      else [])"

definition replace_all :: "char \<Rightarrow> string \<Rightarrow> string \<Rightarrow> string" where
  "replace_all c r text = concat (map (\<lambda>x. if x = c then r else [x]) text)"

definition escapeText :: "string \<Rightarrow> string" where
  "escapeText text =
     (if text = [] then []
      else replace_all (CHR 0x0A) [CHR 0x5C, CHR ''n'']
             (replace_all (CHR '','') [CHR 0x5C, CHR '','']
                (replace_all (CHR '';'') [CHR 0x5C, CHR '';'']
                   (replace_all (CHR 0x5C) [CHR 0x5C, CHR 0x5C] text))))"

definition ics_lines :: "event \<Rightarrow> string list" where
  "ics_lines e =
     (let start = formatICSDate (startDate e);
          end' = formatICSDate (endDate e);
          created = formatICSDate (createdAt e);
          modified = formatICSDate (updatedAt e);
          uid = ''event-'' @ string_of_int (id_event e) @ ''@event-calendar.com''
      in [''BEGIN:VCALENDAR'',
          ''VERSION:2.0'',
          ''PRODID:-//Event Calendar//Event Calendar App//EN'',
          ''CALSCALE:GREGORIAN'',
          ''METHOD:PUBLISH'',
          ''BEGIN:VEVENT'',
          ''UID:'' @ uid,
          ''DTSTAMP:'' @ created,
          ''DTSTART:'' @ start,
          ''DTEND:'' @ end',
          ''SUMMARY:'' @ escapeText (title e),
          (case description e of
             None \<Rightarrow> []
           | Some d \<Rightarrow> if d = [] then [] else ''DESCRIPTION:'' @ escapeText d),
          ''CREATED:'' @ created,
          ''LAST-MODIFIED:'' @ modified,
          rrule e,
          ''STATUS:CONFIRMED'',
          ''TRANSP:OPAQUE'',
          ''END:VEVENT'',
          ''END:VCALENDAR''])"

definition generateICS :: "event \<Rightarrow> string" where
  "generateICS e = join [CHR 0x0D, CHR 0x0A] (filter (\<lambda>line. line \<noteq> []) (ics_lines e))"

text \<open>The escaping as the interchange grammar words it: each backslash, semicolon, comma
  and newline of a text is written as a backslash followed by the character (\<open>n\<close> for the
  newline); every other character stands for itself.\<close>

definition escaped_char :: "char \<Rightarrow> string" where
  "escaped_char c =
     (if c = CHR 0x5C then [CHR 0x5C, CHR 0x5C]
      else if c = CHR '';'' then [CHR 0x5C, CHR '';'']
      else if c = CHR '','' then [CHR 0x5C, CHR '','']
      else if c = CHR 0x0A then [CHR 0x5C, CHR ''n'']
      else [c])"

section \<open>Example inputs\<close>

text \<open>
  Two hosts. \<open>host_utc\<close> runs in UTC. \<open>host_new_york\<close> has the offsets of New York in
  2024: five hours behind UTC, four hours from 2024-03-10T07:00:00Z (1710054000000) to
  2024-11-03T06:00:00Z (1730613600000); the local hour from 02:00 on 10 March is skipped
  and the local hour from 01:00 on 3 November comes twice. \<open>Number_of_digits\<close> is the
  \<open>Number\<close> of both: it is the language's conversion on the empty string and on runs of
  at most 15 decimal digits, the only strings the examples convert, and stands for
  nothing else; the theorems below are about every host, whatever its \<open>Number\<close>.
\<close>

definition Number_of_digits :: "string \<Rightarrow> int option" where
  "Number_of_digits s =
     (if s = [] then Some 0
      else if length s \<le> 15 then digits_value 10 0 s
      else None)"

definition host_utc :: host where
  "host_utc =
     \<lparr>LocalTZA_utc = (\<lambda>t. 0), LocalTZA_local = (\<lambda>t. 0), Number = Number_of_digits\<rparr>"

definition host_new_york :: host where
  "host_new_york =
     \<lparr>LocalTZA_utc = (\<lambda>t. if 1710054000000 \<le> t \<and> t < 1730613600000
                          then - 14400000 else - 18000000),
      LocalTZA_local = (\<lambda>t. if 1710039600000 \<le> t \<and> t < 1730599200000
                            then - 14400000 else - 18000000),
      Number = Number_of_digits\<rparr>"

text \<open>
  Time values used below (UTC): 1704067200000 is 2024-01-01T00:00:00, a Monday;
  1704153599500 is 2024-01-01T23:59:59.500; 1704153600000 is 2024-01-02T00:00:00;
  1704240000000 is 2024-01-03T00:00:00, a Wednesday; 1704326399000 is 2024-01-03T23:59:59;
  1706659200000 is 2024-01-31T00:00:00; 1706831999000 is 2024-02-01T23:59:59;
  1709078400000 is 2024-02-28T00:00:00; 1709164800000 is 2024-02-29T00:00:00;
  1709251200000 is 2024-03-01T00:00:00; 1709337599000 is 2024-03-01T23:59:59;
  1711843200000 is 2024-03-31T00:00:00; 1711879200000 is 2024-03-31T10:00:00;
  1711929599000 is 2024-03-31T23:59:59; 1711929599500 is half a second later;
  1735603200000 is 2024-12-31T00:00:00. In New York: 1707627600000 is 2024-02-11T00:00
  local time, 1709960400000 is 2024-03-09T00:00, 1710046800000 is 2024-03-10T00:00,
  1710129600000 is 2024-03-11T00:00, 1710215999000 is 2024-03-11T23:59:59
  and 1735621200000 is 2024-12-31T00:00.
\<close>

definition ex_daily :: event where
  "ex_daily =
     \<lparr>id_event = 1, title = ''Standup'', description = None,
      startDate = 1704067200000, endDate = 1704153600000,
      isRecurring = True, frequency = Some ''daily'', daysOfWeek = None,
      createdAt = 1704067200000, updatedAt = 1704067200000\<rparr>"

definition ex_daily_ny :: event where
  "ex_daily_ny = ex_daily\<lparr>startDate := 1709960400000, endDate := 1735621200000\<rparr>"

definition ex_weekly :: event where
  "ex_weekly =
     \<lparr>id_event = 2, title = ''Morning Workout'', description = Some ''Gym class at FitZone'',
      startDate = 1704067200000, endDate = 1735603200000,
      isRecurring = True, frequency = Some ''weekly'', daysOfWeek = Some ''1,3,5'',
      createdAt = 1704067200000, updatedAt = 1704067200000\<rparr>"



definition ex_weekly_nodays :: event where
  "ex_weekly_nodays = ex_weekly\<lparr>daysOfWeek := Some []\<rparr>"

definition ex_weekly_absent :: event where
  "ex_weekly_absent = ex_weekly\<lparr>daysOfWeek := None\<rparr>"

definition ex_monthly :: event where
  "ex_monthly =
     \<lparr>id_event = 3, title = ''Rent; due, now'',
      description = Some (''a,b;c'' @ [CHR 0x5C, CHR 0x0A] @ ''d''),
      startDate = 1706659200000, endDate = 1735603200000,
      isRecurring = True, frequency = Some ''monthly'', daysOfWeek = None,
      createdAt = 1704067200000, updatedAt = 1704067200000\<rparr>"

definition ex_monthly_ny :: event where
  "ex_monthly_ny = ex_monthly\<lparr>startDate := 1707627600000, endDate := 1735621200000\<rparr>"

definition ex_single :: event where
  "ex_single =
     \<lparr>id_event = 4, title = ''Birthday Party'', description = Some ''Celebration at home'',
      startDate = 1711879200000, endDate = 1711882800000,
      isRecurring = False, frequency = None, daysOfWeek = None,
      createdAt = 1704067200000, updatedAt = 1704067200000\<rparr>"

definition ex_single_late :: event where
  "ex_single_late = ex_single\<lparr>startDate := 1711929599500, endDate := 1711929599500\<rparr>"

section \<open>Facts about the calendar\<close>

lemma div_step:
  fixes a n :: int
  assumes "1 < n"
  shows "(a + 1) div n = a div n + (if (a + 1) mod n = 0 then 1 else 0)"
proof (cases "a mod n = n - 1")
  case True
  have "a = n * (a div n) + a mod n" by simp
  then have "a = n * (a div n) + (n - 1)" using True by simp
  then have "a + 1 = n * (a div n + 1) + 0" by (simp add: algebra_simps)
  then have "(a + 1) div n = a div n + 1" "(a + 1) mod n = 0"
    using assms int_div_pos_eq[of "a + 1" n "a div n + 1" 0]
      int_mod_pos_eq[of "a + 1" n "a div n + 1" 0] by simp_all
  then show ?thesis by simp
next
  case False
  have b: "0 \<le> a mod n" "a mod n < n" using assms by simp_all
  have "a + 1 = n * (a div n) + (a mod n + 1)"
    using mult_div_mod_eq[of n a] by simp
  moreover have "0 \<le> a mod n + 1" "a mod n + 1 < n" using b False by linarith+
  ultimately have "(a + 1) div n = a div n" "(a + 1) mod n = a mod n + 1"
    using int_div_pos_eq[of "a + 1" n "a div n" "a mod n + 1"]
      int_mod_pos_eq[of "a + 1" n "a div n" "a mod n + 1"] by simp_all
  then show ?thesis using b by simp
qed

lemma mod_shift: "(y - k * n) mod n = y mod n" for y :: int
  using mod_mult_self1[of y "- k" n] by simp

lemma DayFromYear_Suc: "DayFromYear (y + 1) = DayFromYear y + DaysInYear y"
proof -
  have a: "(y + 1 - 1969) div 4 = (y - 1969) div 4 + (if y mod 4 = 0 then 1 else 0)"
    using div_step[of 4 "y - 1969"] mod_shift[of y 492 4] by (simp add: algebra_simps)
  have b: "(y + 1 - 1901) div 100 = (y - 1901) div 100 + (if y mod 100 = 0 then 1 else 0)"
    using div_step[of 100 "y - 1901"] mod_shift[of y 19 100] by (simp add: algebra_simps)
  have c: "(y + 1 - 1601) div 400 = (y - 1601) div 400 + (if y mod 400 = 0 then 1 else 0)"
    using div_step[of 400 "y - 1601"] mod_shift[of y 4 400] by (simp add: algebra_simps)
  have d: "y mod 400 = 0 \<Longrightarrow> y mod 100 = 0"
    by (metis dvd_trans mod_0_imp_dvd dvd_imp_mod_0 dvd_triv_right[of "100::int" 4] mult.commute numeral_times_numeral semiring_norm(13) semiring_norm(12) )
  have e: "y mod 100 = 0 \<Longrightarrow> y mod 4 = 0"
    by presburger
  show ?thesis
    unfolding DayFromYear_def DaysInYear_def a b c using d e by auto
qed

lemma DaysInYear_pos: "365 \<le> DaysInYear y"
  by (simp add: DaysInYear_def)


termination year_down
proof (relation "measure (\<lambda>(d, y). nat (DayFromYear y - d))")
  show "wf (measure (\<lambda>(d, y). nat (DayFromYear y - d)))" by simp
next
  fix d y :: int
  assume "d < DayFromYear y"
  moreover have "DayFromYear y = DayFromYear (y - 1) + DaysInYear (y - 1)"
    using DayFromYear_Suc[of "y - 1"] by simp
  ultimately show "((d, y - 1), (d, y)) \<in> measure (\<lambda>(d, y). nat (DayFromYear y - d))"
    using DaysInYear_pos[of "y - 1"] by simp
qed

termination year_up
proof (relation "measure (\<lambda>(d, y). nat (d + 1 - DayFromYear (y + 1)))")
  show "wf (measure (\<lambda>(d, y). nat (d + 1 - DayFromYear (y + 1))))" by simp
next
  fix d y :: int
  assume "DayFromYear (y + 1) \<le> d"
  then show "((d, y + 1), (d, y)) \<in> measure (\<lambda>(d, y). nat (d + 1 - DayFromYear (y + 1)))"
    using DayFromYear_Suc[of "y + 1"] DaysInYear_pos[of "y + 1"] by (simp add: add.commute)
qed

declare year_down.simps [simp del] year_up.simps [simp del]

lemma year_down_le: "DayFromYear (year_down d y) \<le> d"
  by (induction d y rule: year_down.induct) (subst year_down.simps, simp)

lemma year_up_bounds:
  "DayFromYear y \<le> d \<Longrightarrow>
   DayFromYear (year_up d y) \<le> d \<and> d < DayFromYear (year_up d y + 1)"
  by (induction d y rule: year_up.induct) (subst (1 2) year_up.simps, simp)

lemma YearFromDay_bounds:
  "DayFromYear (YearFromDay d) \<le> d" "d < DayFromYear (YearFromDay d + 1)"
  using year_up_bounds[OF year_down_le, of d "1970 + d div 365"]
  by (simp_all add: YearFromDay_def)

lemma DayFromYear_mono_step: "y \<le> z \<Longrightarrow> DayFromYear y \<le> DayFromYear z"
proof (induction z rule: int_ge_induct)
  case base
  show ?case by simp
next
  case (step i)
  then show ?case using DayFromYear_Suc[of i] DaysInYear_pos[of i] by simp
qed

lemma year_unique:
  assumes "DayFromYear y \<le> d" "d < DayFromYear (y + 1)"
    and "DayFromYear z \<le> d" "d < DayFromYear (z + 1)"
  shows "y = z"
proof (rule ccontr)
  assume "y \<noteq> z"
  then consider "y + 1 \<le> z" | "z + 1 \<le> y" by linarith
  then show False
  proof cases
    case 1
    then show False using DayFromYear_mono_step[of "y + 1" z] assms by linarith
  next
    case 2
    then show False using DayFromYear_mono_step[of "z + 1" y] assms by linarith
  qed
qed

lemma YearFromDay_eqI:
  "DayFromYear y \<le> d \<Longrightarrow> d < DayFromYear (y + 1) \<Longrightarrow> YearFromDay d = y"
  using year_unique[OF YearFromDay_bounds] by blast


lemma DayWithinYear_bounds:
  "0 \<le> DayWithinYear t" "DayWithinYear t < DaysInYear (YearFromTime t)"
  using YearFromDay_bounds[of "Day t"] DayFromYear_Suc[of "YearFromDay (Day t)"]
  by (simp_all add: DayWithinYear_def YearFromTime_def)

lemma InLeapYear_cases: "InLeapYear t = 0 \<or> InLeapYear t = 1"
  by (simp add: InLeapYear_def)

lemma DayWithinYear_leap: "DayWithinYear t < 365 + InLeapYear t"
  using DayWithinYear_bounds(2)[of t]
  by (auto simp: InLeapYear_def DaysInYear_def split: if_splits)

lemma MonthFromTime_range: "0 \<le> MonthFromTime t" "MonthFromTime t \<le> 11"
  by (simp_all add: MonthFromTime_def Let_def)

lemma month_cases:
  "0 \<le> m \<Longrightarrow> m \<le> 11 \<Longrightarrow>
   m = 0 \<or> m = 1 \<or> m = 2 \<or> m = 3 \<or> m = 4 \<or> m = 5 \<or> m = 6 \<or> m = 7 \<or> m = 8 \<or> m = 9
     \<or> m = 10 \<or> m = (11::int)"
  by presburger

lemma DateFromTime_eq:
  "DateFromTime t = DayWithinYear t - month_start (MonthFromTime t) (InLeapYear t) + 1"
  using month_cases[OF MonthFromTime_range, of t]
  by (auto simp add: DateFromTime_def month_start_def Let_def)

lemma month_start_le: "month_start (MonthFromTime t) (InLeapYear t) \<le> DayWithinYear t"
  using DayWithinYear_bounds(1)[of t] InLeapYear_cases[of t]
  by (auto simp: MonthFromTime_def month_start_def Let_def)

lemma month_start_gt: "DayWithinYear t < month_start (MonthFromTime t + 1) (InLeapYear t)"
  using DayWithinYear_leap[of t] InLeapYear_cases[of t]
  by (auto simp: MonthFromTime_def month_start_def Let_def)

lemma month_length:
  "0 \<le> m \<Longrightarrow> m \<le> 11 \<Longrightarrow>
   month_start (m + 1) (if DaysInYear y = 366 then 1 else 0)
     - month_start m (if DaysInYear y = 366 then 1 else 0) = DaysInMonth y m"
  using month_cases[of m] by (auto simp: month_start_def DaysInMonth_def)

lemma DateFromTime_bounds:
  "1 \<le> DateFromTime t" "DateFromTime t \<le> DaysInMonth (YearFromTime t) (MonthFromTime t)"
proof -
  show "1 \<le> DateFromTime t"
    using month_start_le[of t] by (simp add: DateFromTime_eq)
  have "month_start (MonthFromTime t + 1) (InLeapYear t) - month_start (MonthFromTime t) (InLeapYear t)
        = DaysInMonth (YearFromTime t) (MonthFromTime t)"
    using month_length[OF MonthFromTime_range, of t "YearFromTime t"]
    by (simp add: InLeapYear_def)
  then show "DateFromTime t \<le> DaysInMonth (YearFromTime t) (MonthFromTime t)"
    using month_start_gt[of t] by (simp add: DateFromTime_eq)
qed

lemma Day_eq_MakeDay:
  "MakeDay (YearFromTime t) (MonthFromTime t) date = Day t + (date - DateFromTime t)"
proof -
  have "MonthFromTime t div 12 = 0" "MonthFromTime t mod 12 = MonthFromTime t"
    using MonthFromTime_range[of t] by simp_all
  then show ?thesis
    by (simp add: MakeDay_def Let_def DateFromTime_eq DayWithinYear_def InLeapYear_def)
qed

lemma msPerDay_pos: "0 < msPerDay"
  by (simp add: msPerDay_def)

lemma Day_add_days: "Day (t + k * msPerDay) = Day t + k"
  using msPerDay_pos by (simp add: Day_def)

lemma TimeWithinDay_add_days: "TimeWithinDay (t + k * msPerDay) = TimeWithinDay t"
  by (simp add: TimeWithinDay_def)

lemma setDate_next: "setDate h t (getDate h t + 1) = UTC h (LocalTime h t + msPerDay)"
proof -
  have "Day (LocalTime h t) * msPerDay + TimeWithinDay (LocalTime h t) = LocalTime h t"
    by (simp add: Day_def TimeWithinDay_def)
  then show ?thesis
    by (simp add: setDate_def Let_def getDate_def Day_eq_MakeDay MakeDate_def algebra_simps)
qed

lemma calendarDay_inj:
  assumes "calendarDay h s = calendarDay h t"
  shows "localDay h s = localDay h t"
proof -
  have "MakeDay (YearFromTime (LocalTime h s)) (MonthFromTime (LocalTime h s)) (DateFromTime (LocalTime h s))
      = MakeDay (YearFromTime (LocalTime h t)) (MonthFromTime (LocalTime h t)) (DateFromTime (LocalTime h t))"
    using assms by (simp add: calendarDay_def getFullYear_def getMonth_def getDate_def)
  then show ?thesis by (simp add: Day_eq_MakeDay localDay_def)
qed

lemma getDate_le_DaysInMonth: "getDate h t \<le> DaysInMonth (getFullYear h t) (getMonth h t)"
  by (simp add: getDate_def getFullYear_def getMonth_def DateFromTime_bounds)

lemma Day_mono: "a \<le> b \<Longrightarrow> Day a \<le> Day b"
  unfolding Day_def using msPerDay_pos by (simp add: zdiv_mono1)


section \<open>Facts about time zones\<close>

lemma fixed_offset_zone_ok:
  "zone_ok \<lparr>LocalTZA_utc = (\<lambda>t. c), LocalTZA_local = (\<lambda>t. c), Number = f\<rparr>"
  using msPerDay_pos by (simp add: zone_ok_def LocalTime_def UTC_def)

lemma fixed_offset_zone_keeps_day:
  "zone_keeps_day \<lparr>LocalTZA_utc = (\<lambda>t. c), LocalTZA_local = (\<lambda>t. c), Number = f\<rparr>"
  by (simp add: zone_keeps_day_def LocalTime_def UTC_def)

lemma host_utc_ok: "zone_ok host_utc" "zone_keeps_day host_utc"
  unfolding host_utc_def by (rule fixed_offset_zone_ok, rule fixed_offset_zone_keeps_day)

lemma host_new_york_ok: "zone_ok host_new_york"
  by (simp add: zone_ok_def LocalTime_def UTC_def host_new_york_def msPerDay_def)


section \<open>Facts about the loop of the expander\<close>

lemma next_day_eq: "next_day h t = UTC h (LocalTime h t + msPerDay)"
  by (simp add: next_day_def setDate_next)

lemma next_day_local:
  "zone_ok h \<Longrightarrow> LocalTime h t + msPerDay \<le> LocalTime h (next_day h t)"
  by (simp add: zone_ok_def next_day_eq)

lemma next_day_gt:
  assumes "zone_ok h"
  shows "t < next_day h t"
proof (rule ccontr)
  assume "\<not> t < next_day h t"
  then have "next_day h t \<le> t" by simp
  then have "LocalTime h (next_day h t) < LocalTime h t + msPerDay"
    using assms by (simp add: zone_ok_def)
  then show False using next_day_local[OF assms, of t] by simp
qed

lemma localDay_next:
  assumes "zone_ok h"
  shows "localDay h t + 1 \<le> localDay h (next_day h t)"
proof -
  have "Day (LocalTime h t + 1 * msPerDay) \<le> Day (LocalTime h (next_day h t))"
    using next_day_local[OF assms, of t] by (intro Day_mono) simp
  then show ?thesis by (simp only: Day_add_days localDay_def)
qed


lemma iter_mono:
  assumes "zone_ok h" "j < k"
  shows "(next_day h ^^ j) c < (next_day h ^^ k) c"
    and "localDay h ((next_day h ^^ j) c) < localDay h ((next_day h ^^ k) c)"
proof -
  have "(next_day h ^^ j) c < (next_day h ^^ k) c
      \<and> localDay h ((next_day h ^^ j) c) < localDay h ((next_day h ^^ k) c)"
    using assms(2)
  proof (induction k)
    case 0
    then show ?case by simp
  next
    case (Suc k)
    let ?t = "(next_day h ^^ k) c"
    have s: "?t < next_day h ?t" "localDay h ?t < localDay h (next_day h ?t)"
      using next_day_gt[OF assms(1), of ?t] localDay_next[OF assms(1), of ?t] by simp_all
    show ?case
    proof (cases "j = k")
      case True
      then show ?thesis using s by simp
    next
      case False
      then have "j < k" using Suc.prems by simp
      then show ?thesis using Suc.IH s by simp
    qed
  qed
  then show "(next_day h ^^ j) c < (next_day h ^^ k) c"
    and "localDay h ((next_day h ^^ j) c) < localDay h ((next_day h ^^ k) c)"
    by simp_all
qed

lemma iter_ge: "zone_ok h \<Longrightarrow> c + int k \<le> (next_day h ^^ k) c"
proof (induction k)
  case 0
  then show ?case by simp
next
  case (Suc k)
  then show ?case using next_day_gt[of h "(next_day h ^^ k) c"] by simp
qed

lemma loop_body_currentDate:
  "currentDate (loop_body h e dow st) = next_day h (currentDate st)"
  by (simp add: loop_body_def Let_def next_day_def)

lemma loop_body_occurrences:
  "occurrences (loop_body h e dow st) =
     occurrences st @ map (occurrence_of e)
       (filter (\<lambda>t. shouldAdd h e dow t \<and> startDate e \<le> t) [currentDate st])"
  by (simp add: loop_body_def Let_def)

lemma iter_currentDate:
  "currentDate ((loop_body h e dow ^^ k) st) = (next_day h ^^ k) (currentDate st)"
  by (induction k) (simp_all add: loop_body_currentDate)

lemma iter_occurrences:
  "occurrences ((loop_body h e dow ^^ k) st) =
     occurrences st @ map (occurrence_of e)
       (filter (\<lambda>t. shouldAdd h e dow t \<and> startDate e \<le> t) (visited h (currentDate st) k))"
  by (induction k) (simp_all add: loop_body_occurrences iter_currentDate visited_def)

lemma loop_terminates:
  assumes "zone_ok h"
  shows "\<exists>n. while_option (\<lambda>s. currentDate s \<le> monthEnd) (loop_body h e dow) st
               = Some ((loop_body h e dow ^^ n) st)
            \<and> (\<forall>j<n. (next_day h ^^ j) (currentDate st) \<le> monthEnd)
            \<and> monthEnd < (next_day h ^^ n) (currentDate st)"
proof -
  let ?b = "\<lambda>s. currentDate s \<le> monthEnd"
  let ?c = "loop_body h e dow"
  let ?k0 = "nat (monthEnd - currentDate st + 1)"
  have "monthEnd < (next_day h ^^ ?k0) (currentDate st)"
    using iter_ge[OF assms, of "currentDate st" ?k0] by linarith
  then have ex: "\<exists>k. \<not> ?b ((?c ^^ k) st)"
    by (intro exI[of _ ?k0]) (simp add: iter_currentDate)
  define n where "n = (LEAST k. \<not> ?b ((?c ^^ k) st))"
  have w: "while_option ?b ?c st = Some ((?c ^^ n) st)"
    using ex unfolding while_option_def n_def by simp
  have stop: "\<not> ?b ((?c ^^ n) st)"
    unfolding n_def using ex by (rule LeastI_ex)
  have before: "?b ((?c ^^ j) st)" if "j < n" for j
    using not_less_Least[of j "\<lambda>k. \<not> ?b ((?c ^^ k) st)"] that unfolding n_def by blast
  show ?thesis
    using w stop before by (intro exI[of _ n]) (simp add: iter_currentDate)
qed

lemma emitted_fun:
  "(\<lambda>t. shouldAdd h e (parse_daysOfWeek h (daysOfWeek e)) t \<and> startDate e \<le> t) = emitted h e"
  by (simp add: emitted_def fun_eq_iff)

lemma generateRecurringEvents_recurring:
  assumes "zone_ok h" "isRecurring e"
  shows "\<exists>n. generateRecurringEvents h e monthStart monthEnd
               = Some (map (occurrence_of e)
                    (filter (emitted h e) (visited h (max (startDate e) monthStart) n)))
            \<and> (\<forall>j<n. (next_day h ^^ j) (max (startDate e) monthStart) \<le> monthEnd)
            \<and> monthEnd < (next_day h ^^ n) (max (startDate e) monthStart)"
proof -
  let ?st = "\<lparr>currentDate = max (startDate e) monthStart, occurrences = []\<rparr>"
  obtain n where n:
    "while_option (\<lambda>s. currentDate s \<le> monthEnd)
        (loop_body h e (parse_daysOfWeek h (daysOfWeek e))) ?st
      = Some ((loop_body h e (parse_daysOfWeek h (daysOfWeek e)) ^^ n) ?st)"
    "\<forall>j<n. (next_day h ^^ j) (currentDate ?st) \<le> monthEnd"
    "monthEnd < (next_day h ^^ n) (currentDate ?st)"
    using loop_terminates[OF assms(1), of monthEnd e "parse_daysOfWeek h (daysOfWeek e)" ?st]
    by (elim exE conjE)
  have "generateRecurringEvents h e monthStart monthEnd
      = Some (map (occurrence_of e)
          (filter (emitted h e) (visited h (max (startDate e) monthStart) n)))"
    using assms(2) n(1)
    by (simp add: generateRecurringEvents_def Let_def iter_occurrences emitted_fun)
  then show ?thesis using n(2,3) by (intro exI[of _ n]) simp
qed

lemma visited_nth: "k < n \<Longrightarrow> visited h c n ! k = (next_day h ^^ k) c"
  by (simp add: visited_def)

lemma visited_length: "length (visited h c n) = n"
  by (simp add: visited_def)

lemma visited_sorted: "zone_ok h \<Longrightarrow> sorted_wrt (<) (visited h c n)"
  by (simp add: sorted_wrt_iff_nth_less visited_nth visited_length iter_mono(1))

lemma visited_days_sorted:
  "zone_ok h \<Longrightarrow> sorted_wrt (\<lambda>a b. localDay h a < localDay h b) (visited h c n)"
  by (simp add: sorted_wrt_iff_nth_less visited_nth visited_length iter_mono(2))

lemma visited_ge:
  assumes "zone_ok h" "t \<in> set (visited h c n)"
  shows "c \<le> t"
proof -
  obtain k where "t = (next_day h ^^ k) c" using assms(2) by (auto simp: visited_def)
  then show ?thesis using iter_ge[OF assms(1), of c k] by simp
qed

lemma displayDate_occurrence_of [simp]: "displayDate (occurrence_of e d) = d"
  by (simp add: occurrence_of_def event.defs occurrence.defs)

lemma truncate_occurrence_of [simp]: "event.truncate (occurrence_of e d) = e"
  by (simp add: occurrence_of_def event.defs occurrence.defs)

lemma distinct_of_sorted_less:
  "sorted_wrt (\<lambda>a b. (f a :: int) < f b) xs \<Longrightarrow> distinct (map f xs)"
  by (induction xs) auto


lemma filter_at_most_one:
  "distinct (map f xs) \<Longrightarrow> (\<And>x y. x \<in> set xs \<Longrightarrow> y \<in> set xs \<Longrightarrow> P x \<Longrightarrow> P y \<Longrightarrow> f x = f y)
   \<Longrightarrow> length (filter P xs) \<le> 1"
proof (induction xs)
  case Nil
  then show ?case by simp
next
  case (Cons a xs)
  show ?case
  proof (cases "P a")
    case True
    have "filter P xs = []"
    proof (rule ccontr)
      assume "filter P xs \<noteq> []"
      then obtain y where y: "y \<in> set xs" "P y"
        by (auto simp: filter_empty_conv)
      then have "f a = f y" using Cons.prems(2)[of a y] True by simp
      then show False using Cons.prems(1) y by auto
    qed
    then show ?thesis using True by simp
  next
    case False
    then show ?thesis using Cons by simp
  qed
qed


section \<open>Facts about the export\<close>

lemma escape_passes:
  "replace_all (CHR 0x0A) [CHR 0x5C, CHR ''n'']
     (replace_all (CHR '','') [CHR 0x5C, CHR '','']
        (replace_all (CHR '';'') [CHR 0x5C, CHR '';'']
           (replace_all (CHR 0x5C) [CHR 0x5C, CHR 0x5C] s)))
   = concat (map escaped_char s)"
  by (induction s) (simp_all add: replace_all_def escaped_char_def)

lemma escapeText_escaped: "escapeText s = concat (map escaped_char s)"
  by (simp add: escapeText_def escape_passes)

lemma join_Cons: "ys \<noteq> [] \<Longrightarrow> join sep (x # ys) = x @ sep @ join sep ys"
  by (cases ys) simp_all

lemma join_append:
  "xs \<noteq> [] \<Longrightarrow> ys \<noteq> [] \<Longrightarrow> join sep (xs @ ys) = join sep xs @ sep @ join sep ys"
  by (induction sep xs rule: join.induct) (simp_all add: join_Cons)

lemma join_mid:
  assumes "bs \<noteq> []"
  shows "\<exists>pre post. join sep (as @ x # bs) = pre @ x @ sep @ post"
proof (cases "as = []")
  case True
  then have "join sep (as @ x # bs) = [] @ x @ sep @ join sep bs"
    using join_Cons[OF assms, of sep x] by simp
  then show ?thesis by blast
next
  case False
  then have "join sep (as @ x # bs) = (join sep as @ sep) @ x @ sep @ join sep bs"
    using join_append[OF False, of "x # bs" sep] join_Cons[OF assms, of sep x] by simp
  then show ?thesis by blast
qed

lemma join_mid2:
  assumes "bs \<noteq> []"
  shows "\<exists>pre post. join sep (as @ x # y # bs) = pre @ x @ sep @ y @ sep @ post"
proof (cases "as = []")
  case True
  then have "join sep (as @ x # y # bs) = [] @ x @ sep @ y @ sep @ join sep bs"
    using join_Cons[OF assms, of sep y] by simp
  then show ?thesis by blast
next
  case False
  then have "join sep (as @ x # y # bs) = (join sep as @ sep) @ x @ sep @ y @ sep @ join sep bs"
    using join_append[OF False, of "x # y # bs" sep] join_Cons[OF assms, of sep y] by simp
  then show ?thesis by blast
qed

lemma join_line:
  assumes "Suc i < length xs"
  shows "\<exists>pre post. join sep xs = pre @ xs ! i @ sep @ post"
proof -
  have i: "i < length xs" using assms by simp
  have d: "drop (Suc i) xs \<noteq> []" using assms by simp
  have xs: "xs = take i xs @ xs ! i # drop (Suc i) xs"
    using id_take_nth_drop[OF i] .
  show ?thesis
    using join_mid[OF d, of sep "take i xs" "xs ! i"] by (simp only: xs[symmetric])
qed

lemma join_two_lines:
  assumes "Suc (Suc i) < length xs"
  shows "\<exists>pre post. join sep xs = pre @ xs ! i @ sep @ xs ! Suc i @ sep @ post"
proof -
  have i: "i < length xs" using assms by simp
  have d: "drop (Suc i) xs = xs ! Suc i # drop (Suc (Suc i)) xs"
    using assms by (simp add: Cons_nth_drop_Suc)
  have d2: "drop (Suc (Suc i)) xs \<noteq> []" using assms by simp
  have xs: "xs = take i xs @ xs ! i # xs ! Suc i # drop (Suc (Suc i)) xs"
    using id_take_nth_drop[OF i] by (simp only: d)
  show ?thesis
    using join_mid2[OF d2, of sep "take i xs" "xs ! i" "xs ! Suc i"] by (simp only: xs[symmetric])
qed

lemma ics_summary_line:
  "filter (\<lambda>line. line \<noteq> []) (ics_lines e) ! 10 = ''SUMMARY:'' @ escapeText (title e)"
  "11 < length (filter (\<lambda>line. line \<noteq> []) (ics_lines e))"
  by (simp_all add: ics_lines_def Let_def)

lemma ics_description_line:
  assumes "description e = Some d" "d \<noteq> []"
  shows "filter (\<lambda>line. line \<noteq> []) (ics_lines e) ! 11 = ''DESCRIPTION:'' @ escapeText d"
    "12 < length (filter (\<lambda>line. line \<noteq> []) (ics_lines e))"
  using assms by (simp_all add: ics_lines_def Let_def)

lemma recurring_result:
  assumes "zone_ok h" "isRecurring e"
  obtains n where
    "generateRecurringEvents h e monthStart monthEnd
       = Some (map (occurrence_of e)
           (filter (emitted h e) (visited h (max (startDate e) monthStart) n)))"
    "\<forall>j<n. (next_day h ^^ j) (max (startDate e) monthStart) \<le> monthEnd"
    "monthEnd < (next_day h ^^ n) (max (startDate e) monthStart)"
  using generateRecurringEvents_recurring[OF assms, of monthStart monthEnd] by (elim exE conjE)

lemma visited_calendarDays_distinct:
  assumes "zone_ok h"
  shows "distinct (map (calendarDay h) (visited h c n))"
proof -
  have d: "distinct (map (localDay h) (visited h c n))"
    by (rule distinct_of_sorted_less) (rule visited_days_sorted[OF assms])
  then have "distinct (visited h c n)"
    and i: "inj_on (localDay h) (set (visited h c n))"
    by (simp_all add: distinct_map)
  moreover have "inj_on (calendarDay h) (set (visited h c n))"
  proof (rule inj_onI)
    fix s t
    assume "s \<in> set (visited h c n)" "t \<in> set (visited h c n)"
      and "calendarDay h s = calendarDay h t"
    then show "s = t" using i calendarDay_inj[of h s t] by (simp add: inj_on_def)
  qed
  ultimately show ?thesis by (simp add: distinct_map)
qed

lemma displayDate_in_window:
  assumes "zone_ok h" "generateRecurringEvents h e monthStart monthEnd = Some occs"
    and "oc \<in> set occs"
  shows "max (startDate e) monthStart \<le> displayDate oc \<and> displayDate oc \<le> monthEnd"
proof (cases "isRecurring e")
  case True
  obtain n where n:
    "generateRecurringEvents h e monthStart monthEnd
       = Some (map (occurrence_of e)
           (filter (emitted h e) (visited h (max (startDate e) monthStart) n)))"
    "\<forall>j<n. (next_day h ^^ j) (max (startDate e) monthStart) \<le> monthEnd"
    by (rule recurring_result[OF assms(1) True])
  have m: "displayDate oc \<in> set (visited h (max (startDate e) monthStart) n)"
    using assms(2,3) n(1) by auto
  then obtain j where "j < n" "displayDate oc = (next_day h ^^ j) (max (startDate e) monthStart)"
    by (auto simp: visited_def)
  then show ?thesis using n(2) visited_ge[OF assms(1) m] by simp
next
  case False
  then show ?thesis
    using assms(2,3) by (auto simp: generateRecurringEvents_def Let_def split: if_splits)
qed



section \<open>The claims\<close>

text \<open>
  Claim C1 says that every occurrence's \<open>displayDate\<close> lies within
  \<open>[max(startDate, windowStart), min(endDate, windowEnd)]\<close>, so that none is later than
  the definition's \<open>endDate\<close>. The loop reads \<open>endDate\<close> into a constant and never
  compares against it (\<open>displayDate_in_window\<close> gives the bounds that do hold). For the
  daily event that starts on 2024-01-01 and ends on 2024-01-02, with the window from
  2024-01-01 to 2024-01-03T23:59:59 on a host in UTC, the expander returns three
  occurrences, the last of them on 2024-01-03, after \<open>endDate\<close>.
\<close>

theorem occurrence_after_endDate:
  "map_option (map displayDate)
     (generateRecurringEvents host_utc ex_daily 1704067200000 1704326399000)
     = Some [1704067200000, 1704153600000, 1704240000000]
   \<and> endDate ex_daily = 1704153600000
   \<and> min (endDate ex_daily) 1704326399000 < 1704240000000"
  by code_simp

text \<open>
  Claim C2 says that a daily definition with \<open>startDate \<le> endDate\<close> yields as many
  occurrences as there are calendar days in
  \<open>[max(startDate, windowStart), min(endDate, windowEnd)]\<close>. On the same input that range
  holds two calendar days (2024-01-01 and 2024-01-02) and the expander returns three
  occurrences, for the same reason: \<open>endDate\<close> does not bound the loop.
\<close>

theorem daily_count_exceeds_range:
  "startDate ex_daily \<le> endDate ex_daily
   \<and> frequency ex_daily = Some ''daily''
   \<and> localDay host_utc (min (endDate ex_daily) 1704326399000)
       - localDay host_utc (max (startDate ex_daily) 1704067200000) + 1 = 2
   \<and> map_option length
       (generateRecurringEvents host_utc ex_daily 1704067200000 1704326399000) = Some 3"
  by code_simp

text \<open>
  Claim C3, as the code has it: for a definition that is not recurring the expander
  returns exactly one occurrence, whose \<open>displayDate\<close> is \<open>startDate\<close>, if and only if
  \<open>startDate\<close> as a full time value (time of day included) lies within
  \<open>[windowStart, windowEnd]\<close>, and no occurrence otherwise, on every host. The claim's
  own wording compares calendar dates with the time of day discarded, which the code
  does not do.
\<close>

theorem single_event_in_window:
  assumes "\<not> isRecurring e"
  shows "(monthStart \<le> startDate e \<and> startDate e \<le> monthEnd \<longrightarrow>
            generateRecurringEvents h e monthStart monthEnd = Some [occurrence_of e (startDate e)]
            \<and> displayDate (occurrence_of e (startDate e)) = startDate e)
       \<and> (\<not> (monthStart \<le> startDate e \<and> startDate e \<le> monthEnd) \<longrightarrow>
            generateRecurringEvents h e monthStart monthEnd = Some [])"
  using assms by (simp add: generateRecurringEvents_def Let_def)

theorem single_event_in_window_witness:
  "\<not> isRecurring ex_single
   \<and> 1709251200000 \<le> startDate ex_single \<and> startDate ex_single \<le> 1711929599000
   \<and> generateRecurringEvents host_new_york ex_single 1709251200000 1711929599000
       = Some [occurrence_of ex_single (startDate ex_single)]
   \<and> displayDate (occurrence_of ex_single (startDate ex_single)) = 1711879200000
   \<and> \<not> (1709251200000 \<le> startDate ex_single \<and> startDate ex_single \<le> 1711843200000)
   \<and> generateRecurringEvents host_utc ex_single 1709251200000 1711843200000 = Some []"
proof -
  have h: "\<not> isRecurring ex_single" by (simp add: ex_single_def)
  have s: "startDate ex_single = 1711879200000" by (simp add: ex_single_def)
  show ?thesis
    using h single_event_in_window[OF h, of 1709251200000 1711929599000 host_new_york]
      single_event_in_window[OF h, of 1709251200000 1711843200000 host_utc]
    by (simp add: s)
qed

text \<open>
  The claim as worded fails. The event of 2024-03-31T10:00:00 falls on the calendar day
  that ends the window from 2024-03-01T00:00:00 to 2024-03-31T00:00:00 (its calendar day
  is the window end's, and that day's midnight lies within the window), and the expander
  returns nothing. The same happens with the window of March 2024 as the month view
  passes it, from 2024-03-01T00:00:00 to 2024-03-31T23:59:59, for an event half a second
  after the window's end on that last day.
\<close>

theorem single_event_calendar_date_counterexample:
  "\<not> isRecurring ex_single
   \<and> localDay host_utc 1709251200000 \<le> localDay host_utc (startDate ex_single)
   \<and> localDay host_utc (startDate ex_single) \<le> localDay host_utc 1711843200000
   \<and> calendarDay host_utc (startDate ex_single) = calendarDay host_utc 1711843200000
   \<and> 1709251200000 \<le> localDay host_utc (startDate ex_single) * msPerDay
   \<and> localDay host_utc (startDate ex_single) * msPerDay \<le> 1711843200000
   \<and> generateRecurringEvents host_utc ex_single 1709251200000 1711843200000 = Some []
   \<and> \<not> isRecurring ex_single_late
   \<and> localDay host_utc 1709251200000 \<le> localDay host_utc (startDate ex_single_late)
   \<and> localDay host_utc (startDate ex_single_late) \<le> localDay host_utc 1711929599000
   \<and> calendarDay host_utc (startDate ex_single_late) = (2024, 2, 31)
   \<and> calendarDay host_utc 1711929599000 = (2024, 2, 31)
   \<and> generateRecurringEvents host_utc ex_single_late 1709251200000 1711929599000 = Some []"
  by code_simp




text \<open>
  Claim C5: for a recurring monthly definition, on a host whose time zone is \<open>zone_ok\<close>,
  every occurrence's day of the month is the day of the month of \<open>startDate\<close>, and every
  month (a year and a month index) holds at most one occurrence.
\<close>

theorem monthly_same_day_of_month:
  assumes "zone_ok h" "isRecurring e" "frequency e = Some ''monthly''"
  shows "\<exists>occs. generateRecurringEvents h e monthStart monthEnd = Some occs
       \<and> (\<forall>oc \<in> set occs. getDate h (displayDate oc) = getDate h (startDate e))
       \<and> (\<forall>y m. length (filter (\<lambda>oc. getFullYear h (displayDate oc) = y
                                    \<and> getMonth h (displayDate oc) = m) occs) \<le> 1)"
proof -
  let ?s = "max (startDate e) monthStart"
  obtain n where n:
    "generateRecurringEvents h e monthStart monthEnd
       = Some (map (occurrence_of e) (filter (emitted h e) (visited h ?s n)))"
    by (rule recurring_result[OF assms(1,2)])
  let ?xs = "filter (emitted h e) (visited h ?s n)"
  let ?occs = "map (occurrence_of e) ?xs"
  have em: "emitted h e t \<Longrightarrow> getDate h t = getDate h (startDate e)" for t
    using assms(3) by (simp add: emitted_def shouldAdd_def)
  have a: "\<forall>oc \<in> set ?occs. getDate h (displayDate oc) = getDate h (startDate e)"
  proof
    fix oc assume "oc \<in> set ?occs"
    then have "emitted h e (displayDate oc)" by auto
    then show "getDate h (displayDate oc) = getDate h (startDate e)" by (rule em)
  qed
  have d: "distinct (map (calendarDay h) ?xs)"
    by (rule distinct_map_filter) (rule visited_calendarDays_distinct[OF assms(1)])
  have b: "length (filter (\<lambda>oc. getFullYear h (displayDate oc) = y
                                    \<and> getMonth h (displayDate oc) = m) ?occs) \<le> 1" for y m
  proof -
    let ?Q = "\<lambda>t. getFullYear h t = y \<and> getMonth h t = m"
    have "length (filter ?Q ?xs) \<le> 1"
    proof (rule filter_at_most_one[OF d])
      fix s t assume "s \<in> set ?xs" "t \<in> set ?xs" "?Q s" "?Q t"
      then show "calendarDay h s = calendarDay h t"
        using em[of s] em[of t] by (simp add: calendarDay_def)
    qed
    then show ?thesis by (simp add: filter_map comp_def)
  qed
  show ?thesis
    by (rule exI[of _ ?occs], intro conjI allI) (rule n(1), rule a, rule b)
qed

theorem monthly_same_day_of_month_witness:
  "zone_ok host_new_york
   \<and> isRecurring ex_monthly_ny \<and> frequency ex_monthly_ny = Some ''monthly''
   \<and> generateRecurringEvents host_new_york ex_monthly_ny 1707627600000 1710215999000
       = Some [occurrence_of ex_monthly_ny 1707627600000, occurrence_of ex_monthly_ny 1710129600000]
   \<and> getDate host_new_york (startDate ex_monthly_ny) = 11
   \<and> getDate host_new_york (displayDate (occurrence_of ex_monthly_ny 1707627600000)) = 11
   \<and> getDate host_new_york (displayDate (occurrence_of ex_monthly_ny 1710129600000)) = 11
   \<and> calendarDay host_new_york 1707627600000 = (2024, 1, 11)
   \<and> calendarDay host_new_york 1710129600000 = (2024, 2, 11)
   \<and> length (filter (\<lambda>oc. getFullYear host_new_york (displayDate oc) = 2024
                          \<and> getMonth host_new_york (displayDate oc) = 2)
         [occurrence_of ex_monthly_ny 1707627600000, occurrence_of ex_monthly_ny 1710129600000]) \<le> 1
   \<and> length (filter (\<lambda>oc. getFullYear host_new_york (displayDate oc) = 2024
                          \<and> getMonth host_new_york (displayDate oc) = 1)
         [occurrence_of ex_monthly_ny 1707627600000, occurrence_of ex_monthly_ny 1710129600000]) \<le> 1"
proof -
  have h1: "isRecurring ex_monthly_ny" by (simp add: ex_monthly_ny_def ex_monthly_def)
  have h2: "frequency ex_monthly_ny = Some ''monthly''"
    by (simp add: ex_monthly_ny_def ex_monthly_def)
  have g: "getDate host_new_york (startDate ex_monthly_ny) = 11"
    "calendarDay host_new_york 1707627600000 = (2024, 1, 11)"
    "calendarDay host_new_york 1710129600000 = (2024, 2, 11)"
    by code_simp+
  have r: "generateRecurringEvents host_new_york ex_monthly_ny 1707627600000 1710215999000
       = Some [occurrence_of ex_monthly_ny 1707627600000, occurrence_of ex_monthly_ny 1710129600000]"
    by code_simp
  obtain occs where o:
    "generateRecurringEvents host_new_york ex_monthly_ny 1707627600000 1710215999000 = Some occs"
    "\<forall>oc \<in> set occs. getDate host_new_york (displayDate oc)
        = getDate host_new_york (startDate ex_monthly_ny)"
    "\<forall>y m. length (filter (\<lambda>oc. getFullYear host_new_york (displayDate oc) = y
                          \<and> getMonth host_new_york (displayDate oc) = m) occs) \<le> 1"
    using monthly_same_day_of_month[OF host_new_york_ok h1 h2, of 1707627600000 1710215999000]
    by (elim exE conjE)
  have occs: "occs = [occurrence_of ex_monthly_ny 1707627600000,
      occurrence_of ex_monthly_ny 1710129600000]"
    using o(1) r by simp
  have a: "getDate host_new_york (displayDate (occurrence_of ex_monthly_ny 1707627600000)) = 11"
    "getDate host_new_york (displayDate (occurrence_of ex_monthly_ny 1710129600000)) = 11"
    using o(2) unfolding occs g by simp_all
  have b: "length (filter (\<lambda>oc. getFullYear host_new_york (displayDate oc) = 2024
                          \<and> getMonth host_new_york (displayDate oc) = 2)
         [occurrence_of ex_monthly_ny 1707627600000, occurrence_of ex_monthly_ny 1710129600000]) \<le> 1"
    "length (filter (\<lambda>oc. getFullYear host_new_york (displayDate oc) = 2024
                          \<and> getMonth host_new_york (displayDate oc) = 1)
         [occurrence_of ex_monthly_ny 1707627600000, occurrence_of ex_monthly_ny 1710129600000]) \<le> 1"
    using o(3) unfolding occs by blast+
  show ?thesis
    by (intro conjI)
      (rule host_new_york_ok, rule h1, rule h2, rule r, rule g(1), rule a(1), rule a(2),
        rule g(2), rule g(3), rule b(1), rule b(2))
qed

text \<open>
  Claim C6: a recurring weekly definition whose \<open>daysOfWeek\<close> is absent (null) or the
  empty string yields no occurrence, for every window, on a host whose time zone is
  \<open>zone_ok\<close> (every fixed offset is: \<open>fixed_offset_zone_ok\<close>); the expander returns, and
  has no failing branch, so nothing is thrown.
\<close>

theorem weekly_empty_daysOfWeek:
  assumes "zone_ok h" "isRecurring e" "frequency e = Some ''weekly''"
    and "daysOfWeek e = None \<or> daysOfWeek e = Some []"
  shows "generateRecurringEvents h e monthStart monthEnd = Some []"
proof -
  obtain n where n:
    "generateRecurringEvents h e monthStart monthEnd
       = Some (map (occurrence_of e)
           (filter (emitted h e) (visited h (max (startDate e) monthStart) n)))"
    by (rule recurring_result[OF assms(1,2)])
  have "parse_daysOfWeek h (daysOfWeek e) = []"
    using assms(4) by (auto simp: parse_daysOfWeek_def)
  then have "\<not> emitted h e t" for t
    using assms(3) by (simp add: emitted_def shouldAdd_def)
  then show ?thesis using n by simp
qed

theorem weekly_empty_daysOfWeek_witness:
  "zone_ok host_utc \<and> zone_ok host_new_york
   \<and> isRecurring ex_weekly_nodays \<and> frequency ex_weekly_nodays = Some ''weekly''
   \<and> daysOfWeek ex_weekly_nodays = Some []
   \<and> generateRecurringEvents host_utc ex_weekly_nodays 1704067200000 1704326399000 = Some []
   \<and> isRecurring ex_weekly_absent \<and> frequency ex_weekly_absent = Some ''weekly''
   \<and> daysOfWeek ex_weekly_absent = None
   \<and> generateRecurringEvents host_new_york ex_weekly_absent 1704067200000 1704326399000 = Some []
   \<and> map_option (map displayDate)
         (generateRecurringEvents host_utc ex_weekly 1704067200000 1704326399000)
       = Some [1704067200000, 1704240000000]"
proof -
  have h1: "isRecurring ex_weekly_nodays" by (simp add: ex_weekly_nodays_def ex_weekly_def)
  have h2: "frequency ex_weekly_nodays = Some ''weekly''"
    by (simp add: ex_weekly_nodays_def ex_weekly_def)
  have h3: "daysOfWeek ex_weekly_nodays = None \<or> daysOfWeek ex_weekly_nodays = Some []"
    by (simp add: ex_weekly_nodays_def)
  have k1: "isRecurring ex_weekly_absent" by (simp add: ex_weekly_absent_def ex_weekly_def)
  have k2: "frequency ex_weekly_absent = Some ''weekly''"
    by (simp add: ex_weekly_absent_def ex_weekly_def)
  have k3: "daysOfWeek ex_weekly_absent = None \<or> daysOfWeek ex_weekly_absent = Some []"
    by (simp add: ex_weekly_absent_def)
  have r: "map_option (map displayDate)
         (generateRecurringEvents host_utc ex_weekly 1704067200000 1704326399000)
       = Some [1704067200000, 1704240000000]"
    by code_simp
  show ?thesis
    using host_utc_ok(1) host_new_york_ok h1 h2 k1 k2 r
      weekly_empty_daysOfWeek[OF host_utc_ok(1) h1 h2 h3, of 1704067200000 1704326399000]
      weekly_empty_daysOfWeek[OF host_new_york_ok k1 k2 k3, of 1704067200000 1704326399000]
    by (simp add: ex_weekly_nodays_def ex_weekly_absent_def)
qed

text \<open>
  Claim C7: on a host whose time zone is \<open>zone_ok\<close>, the expander returns, its
  occurrences are in strictly ascending order of \<open>displayDate\<close>, and no two of them fall
  on the same calendar day (year, month, day of the month in local time).
\<close>

theorem occurrences_ascending_one_per_day:
  assumes "zone_ok h"
  shows "\<exists>occs. generateRecurringEvents h e monthStart monthEnd = Some occs
       \<and> sorted_wrt (\<lambda>a b. displayDate a < displayDate b) occs
       \<and> distinct (map (\<lambda>oc. calendarDay h (displayDate oc)) occs)"
proof (cases "isRecurring e")
  case False
  then show ?thesis by (simp add: generateRecurringEvents_def Let_def)
next
  case True
  let ?s = "max (startDate e) monthStart"
  obtain n where n:
    "generateRecurringEvents h e monthStart monthEnd
       = Some (map (occurrence_of e) (filter (emitted h e) (visited h ?s n)))"
    by (rule recurring_result[OF assms True])
  let ?xs = "filter (emitted h e) (visited h ?s n)"
  have "sorted_wrt (<) ?xs"
    by (rule sorted_wrt_filter) (rule visited_sorted[OF assms])
  then have a: "sorted_wrt (\<lambda>a b. displayDate a < displayDate b) (map (occurrence_of e) ?xs)"
    by (simp add: sorted_wrt_map)
  have "distinct (map (calendarDay h) ?xs)"
    by (rule distinct_map_filter) (rule visited_calendarDays_distinct[OF assms])
  then have b: "distinct (map (\<lambda>oc. calendarDay h (displayDate oc)) (map (occurrence_of e) ?xs))"
    by (simp add: comp_def)
  show ?thesis
    by (rule exI[of _ "map (occurrence_of e) ?xs"], intro conjI) (rule n, rule a, rule b)
qed

theorem occurrences_ascending_one_per_day_witness:
  "zone_ok host_new_york
   \<and> generateRecurringEvents host_new_york ex_daily_ny 1709960400000 1710215999000
       = Some [occurrence_of ex_daily_ny 1709960400000, occurrence_of ex_daily_ny 1710046800000,
               occurrence_of ex_daily_ny 1710129600000]
   \<and> calendarDay host_new_york 1709960400000 = (2024, 2, 9)
   \<and> calendarDay host_new_york 1710046800000 = (2024, 2, 10)
   \<and> calendarDay host_new_york 1710129600000 = (2024, 2, 11)
   \<and> (\<exists>occs. generateRecurringEvents host_new_york ex_daily_ny 1709960400000 1710215999000
                = Some occs
          \<and> sorted_wrt (\<lambda>a b. displayDate a < displayDate b) occs
          \<and> distinct (map (\<lambda>oc. calendarDay host_new_york (displayDate oc)) occs))"
proof -
  have r: "generateRecurringEvents host_new_york ex_daily_ny 1709960400000 1710215999000
       = Some [occurrence_of ex_daily_ny 1709960400000, occurrence_of ex_daily_ny 1710046800000,
               occurrence_of ex_daily_ny 1710129600000]"
    by code_simp
  have c: "calendarDay host_new_york 1709960400000 = (2024, 2, 9)"
    "calendarDay host_new_york 1710046800000 = (2024, 2, 10)"
    "calendarDay host_new_york 1710129600000 = (2024, 2, 11)"
    by code_simp+
  note t = occurrences_ascending_one_per_day[OF host_new_york_ok,
      of ex_daily_ny 1709960400000 1710215999000]
  show ?thesis
    by (intro conjI) (rule host_new_york_ok, rule r, rule c(1), rule c(2), rule c(3), rule t)
qed

text \<open>
  Claim C8: in the text \<open>generateICS\<close> produces, the title and the description appear
  with every backslash, semicolon, comma and newline backslash-escaped: \<open>escapeText\<close>
  replaces each character of the text by \<open>escaped_char\<close> of it, the output holds the line
  \<open>SUMMARY:\<close> followed by the escaped title, and, when the description is not empty,
  next to it the line \<open>DESCRIPTION:\<close> followed by the escaped description.
\<close>

theorem export_text_escaped:
  "escapeText (title e) = concat (map escaped_char (title e))
   \<and> (\<exists>pre post. generateICS e =
         pre @ ''SUMMARY:'' @ concat (map escaped_char (title e)) @ [CHR 0x0D, CHR 0x0A] @ post)
   \<and> (\<forall>d. description e = Some d \<and> d \<noteq> [] \<longrightarrow>
         escapeText d = concat (map escaped_char d) \<and>
         (\<exists>pre post. generateICS e =
            pre @ ''SUMMARY:'' @ concat (map escaped_char (title e)) @ [CHR 0x0D, CHR 0x0A]
              @ ''DESCRIPTION:'' @ concat (map escaped_char d) @ [CHR 0x0D, CHR 0x0A] @ post))"
proof (intro conjI allI impI)
  let ?L = "filter (\<lambda>line. line \<noteq> []) (ics_lines e)"
  show "escapeText (title e) = concat (map escaped_char (title e))"
    by (rule escapeText_escaped)
  have "Suc 10 < length ?L" using ics_summary_line(2)[of e] by simp
  from join_line[OF this, of "[CHR 0x0D, CHR 0x0A]"]
  show "\<exists>pre post. generateICS e =
         pre @ ''SUMMARY:'' @ concat (map escaped_char (title e)) @ [CHR 0x0D, CHR 0x0A] @ post"
    by (simp only: generateICS_def ics_summary_line(1) escapeText_escaped append_assoc)
next
  fix d assume a: "description e = Some d \<and> d \<noteq> []"
  show "escapeText d = concat (map escaped_char d)" by (rule escapeText_escaped)
next
  fix d assume a: "description e = Some d \<and> d \<noteq> []"
  let ?L = "filter (\<lambda>line. line \<noteq> []) (ics_lines e)"
  have n: "?L ! Suc 10 = ''DESCRIPTION:'' @ escapeText d" "Suc (Suc 10) < length ?L"
    using ics_description_line[of e d] a by simp_all
  from join_two_lines[OF n(2), of "[CHR 0x0D, CHR 0x0A]"]
  show "\<exists>pre post. generateICS e =
            pre @ ''SUMMARY:'' @ concat (map escaped_char (title e)) @ [CHR 0x0D, CHR 0x0A]
              @ ''DESCRIPTION:'' @ concat (map escaped_char d) @ [CHR 0x0D, CHR 0x0A] @ post"
    by (simp only: generateICS_def ics_summary_line(1) n(1) escapeText_escaped append_assoc)
qed

theorem export_text_escaped_witness:
  "description ex_monthly = Some (''a,b;c'' @ [CHR 0x5C, CHR 0x0A] @ ''d'')
   \<and> concat (map escaped_char (title ex_monthly))
       = ''Rent'' @ [CHR 0x5C] @ ''; due'' @ [CHR 0x5C] @ '', now''
   \<and> concat (map escaped_char (''a,b;c'' @ [CHR 0x5C, CHR 0x0A] @ ''d''))
       = ''a'' @ [CHR 0x5C] @ '',b'' @ [CHR 0x5C] @ '';c'' @ [CHR 0x5C, CHR 0x5C]
         @ [CHR 0x5C] @ ''nd''
   \<and> (\<exists>pre post. generateICS ex_monthly =
         pre @ ''SUMMARY:'' @ concat (map escaped_char (title ex_monthly)) @ [CHR 0x0D, CHR 0x0A]
           @ ''DESCRIPTION:'' @ concat (map escaped_char (''a,b;c'' @ [CHR 0x5C, CHR 0x0A] @ ''d''))
           @ [CHR 0x0D, CHR 0x0A] @ post)"
proof -
  have h: "description ex_monthly = Some (''a,b;c'' @ [CHR 0x5C, CHR 0x0A] @ ''d'')
      \<and> ''a,b;c'' @ [CHR 0x5C, CHR 0x0A] @ ''d'' \<noteq> []"
    by (simp add: ex_monthly_def)
  have t: "concat (map escaped_char (title ex_monthly))
       = ''Rent'' @ [CHR 0x5C] @ ''; due'' @ [CHR 0x5C] @ '', now''"
    by code_simp
  have d: "concat (map escaped_char (''a,b;c'' @ [CHR 0x5C, CHR 0x0A] @ ''d''))
       = ''a'' @ [CHR 0x5C] @ '',b'' @ [CHR 0x5C] @ '';c'' @ [CHR 0x5C, CHR 0x5C]
         @ [CHR 0x5C] @ ''nd''"
    by code_simp
  from export_text_escaped[of ex_monthly]
  have "\<forall>d. description ex_monthly = Some d \<and> d \<noteq> [] \<longrightarrow>
         escapeText d = concat (map escaped_char d) \<and>
         (\<exists>pre post. generateICS ex_monthly =
            pre @ ''SUMMARY:'' @ concat (map escaped_char (title ex_monthly)) @ [CHR 0x0D, CHR 0x0A]
              @ ''DESCRIPTION:'' @ concat (map escaped_char d) @ [CHR 0x0D, CHR 0x0A] @ post)"
    by (elim conjE)
  then have "\<exists>pre post. generateICS ex_monthly =
         pre @ ''SUMMARY:'' @ concat (map escaped_char (title ex_monthly)) @ [CHR 0x0D, CHR 0x0A]
           @ ''DESCRIPTION:'' @ concat (map escaped_char (''a,b;c'' @ [CHR 0x5C, CHR 0x0A] @ ''d''))
           @ [CHR 0x0D, CHR 0x0A] @ post"
    using h by blast
  then show ?thesis using h t d by blast
qed

text \<open>
  Claim C9: for a recurring monthly definition, on a host whose time zone is \<open>zone_ok\<close>
  (every fixed offset is), a month that has fewer days than the day of the month of
  \<open>startDate\<close> holds no occurrence: the month is skipped, its last day does not stand in.
\<close>

theorem monthly_short_month_skipped:
  assumes "zone_ok h" "isRecurring e" "frequency e = Some ''monthly''"
    and "DaysInMonth y m < getDate h (startDate e)"
  shows "\<exists>occs. generateRecurringEvents h e monthStart monthEnd = Some occs
       \<and> filter (\<lambda>oc. getFullYear h (displayDate oc) = y \<and> getMonth h (displayDate oc) = m)
            occs = []"
proof -
  obtain n where n:
    "generateRecurringEvents h e monthStart monthEnd
       = Some (map (occurrence_of e)
           (filter (emitted h e) (visited h (max (startDate e) monthStart) n)))"
    by (rule recurring_result[OF assms(1,2)])
  let ?occs = "map (occurrence_of e)
           (filter (emitted h e) (visited h (max (startDate e) monthStart) n))"
  have "\<not> (getFullYear h (displayDate oc) = y \<and> getMonth h (displayDate oc) = m)"
    if "oc \<in> set ?occs" for oc
  proof
    assume ym: "getFullYear h (displayDate oc) = y \<and> getMonth h (displayDate oc) = m"
    have "emitted h e (displayDate oc)" using that by auto
    then have "getDate h (displayDate oc) = getDate h (startDate e)"
      using assms(3) by (simp add: emitted_def shouldAdd_def)
    moreover have "getDate h (displayDate oc) \<le> DaysInMonth y m"
      using getDate_le_DaysInMonth[of h "displayDate oc"] ym by simp
    ultimately show False using assms(4) by simp
  qed
  then have "filter (\<lambda>oc. getFullYear h (displayDate oc) = y \<and> getMonth h (displayDate oc) = m)
            ?occs = []"
    by (simp only: filter_empty_conv) blast
  then show ?thesis using n by (intro exI[of _ ?occs]) simp
qed

theorem monthly_short_month_skipped_witness:
  "zone_ok host_utc
   \<and> isRecurring ex_monthly \<and> frequency ex_monthly = Some ''monthly''
   \<and> DaysInMonth 2024 1 = 29 \<and> getDate host_utc (startDate ex_monthly) = 31
   \<and> calendarDay host_utc 1709164800000 = (2024, 1, 29)
   \<and> map_option
         (filter (\<lambda>oc. getFullYear host_utc (displayDate oc) = 2024
                       \<and> getMonth host_utc (displayDate oc) = 1))
         (generateRecurringEvents host_utc ex_monthly 1706659200000 1709337599000) = Some []
   \<and> map_option (map displayDate)
         (generateRecurringEvents host_utc ex_monthly 1706659200000 1709337599000)
       = Some [1706659200000]"
proof -
  have h1: "isRecurring ex_monthly" by (simp add: ex_monthly_def)
  have h2: "frequency ex_monthly = Some ''monthly''" by (simp add: ex_monthly_def)
  have g: "DaysInMonth 2024 1 = 29" "getDate host_utc (startDate ex_monthly) = 31"
    "calendarDay host_utc 1709164800000 = (2024, 1, 29)"
    by code_simp+
  have h3: "DaysInMonth 2024 1 < getDate host_utc (startDate ex_monthly)" by (simp add: g)
  have r: "map_option (map displayDate)
         (generateRecurringEvents host_utc ex_monthly 1706659200000 1709337599000)
       = Some [1706659200000]"
    by code_simp
  obtain occs where o:
    "generateRecurringEvents host_utc ex_monthly 1706659200000 1709337599000 = Some occs"
    "filter (\<lambda>oc. getFullYear host_utc (displayDate oc) = 2024
                       \<and> getMonth host_utc (displayDate oc) = 1) occs = []"
    using monthly_short_month_skipped[OF host_utc_ok(1) h1 h2 h3, of 1706659200000 1709337599000]
    by (elim exE conjE)
  have f: "map_option
         (filter (\<lambda>oc. getFullYear host_utc (displayDate oc) = 2024
                       \<and> getMonth host_utc (displayDate oc) = 1))
         (generateRecurringEvents host_utc ex_monthly 1706659200000 1709337599000) = Some []"
    using o by simp
  show ?thesis
    using host_utc_ok(1) h1 h2 g f r by (intro conjI)
qed



end
